theory Spec2Isabelle
  imports Main
begin

section \<open>Python strings\<close>

text \<open>
  A Python \<open>str\<close> is a sequence of code points. It is modelled as a \<open>string\<close> whose
  characters stand for the code points U+0000 to U+00FF (ISO 8859-1), the range that
  holds every character of the configured keywords (English, French and Spanish).
  \<open>str.lower\<close>, \<open>str.strip\<close> and \<open>str.count\<close> are builtins of the Python runtime; they
  are modelled on that range.
\<close>

definition is_upper :: "char \<Rightarrow> bool" where
  \<comment> \<open>A to Z, A-grave to O-diaeresis, O-stroke to Thorn: the cased upper-case letters below U+0100.\<close>
  "is_upper c =
     (let n = (of_char c :: nat)
      in (65 \<le> n \<and> n \<le> 90) \<or> (192 \<le> n \<and> n \<le> 214) \<or> (216 \<le> n \<and> n \<le> 222))"

fun set_bit5 :: "char \<Rightarrow> char" where
  "set_bit5 (Char b0 b1 b2 b3 b4 b5 b6 b7) = Char b0 b1 b2 b3 b4 True b6 b7"

definition lower_char :: "char \<Rightarrow> char" where
  \<comment> \<open>The lower-case letter lies 32 above its upper-case letter, whose bit 5 is clear.\<close>
  "lower_char c = (if is_upper c then set_bit5 c else c)"

definition lower :: "string \<Rightarrow> string" where
  "lower s = map lower_char s"

fun startswith :: "string \<Rightarrow> string \<Rightarrow> bool" where
  \<comment> \<open>\<open>s.startswith(prefix)\<close>: the match of \<open>prefix\<close> at the head of \<open>s\<close>.\<close>
  "startswith s [] = True"
| "startswith [] (p # ps) = False"
| "startswith (c # cs) (p # ps) = (c = p \<and> startswith cs ps)"

text \<open>
  \<open>s.count(sub)\<close> for a non-empty \<open>sub\<close>: scan from the left; at a match count one and
  resume after the match, otherwise move one character on.
\<close>

function count_from :: "string \<Rightarrow> string \<Rightarrow> nat" where
  "count_from sub [] = 0"
| "count_from sub (c # cs) =
     (if startswith (c # cs) sub
      then Suc (count_from sub (drop (length sub - 1) cs))
      else count_from sub cs)"
  by pat_completeness auto
termination
  by (relation "measure (\<lambda>(sub, s). length s)") auto

definition str_count :: "string \<Rightarrow> string \<Rightarrow> nat" where
  \<comment> \<open>\<open>s.count(sub)\<close>; an empty \<open>sub\<close> is found between all characters and at both ends.\<close>
  "str_count s sub = (if sub = [] then length s + 1 else count_from sub s)"

section \<open>Page content model (pdf_processor.py)\<close>

text \<open>The field \<open>text\<close> of the source is \<open>page_text\<close> here: \<open>text\<close> is a keyword of Isabelle.\<close>

record PageData =
  page_num :: int
  page_text :: string
  tables :: "string list"
  relevance_score :: int
  has_tables :: bool

section \<open>Configuration (config.py)\<close>

text \<open>
  The module-level constants the scorer and the selector read. They are collected in a
  record that every operation takes, so that a property can be stated for any setting;
  \<open>config_default\<close> holds the values of config.py.
\<close>

record config =
  RELEVANCE_KEYWORDS :: "string list"
  KEYWORD_SCORE :: int
  TABLE_BONUS_SCORE :: int
  TOP_PAGES_TO_SELECT :: int
  INCLUDE_NEIGHBOR_PAGES :: bool

definition RELEVANCE_KEYWORDS_default :: "string list" where
  \<comment> \<open>English, then French, then Spanish; a character beyond ASCII is written by its code point.\<close>
  "RELEVANCE_KEYWORDS_default =
     [''trigger'',
      ''activation'',
      ''threshold'',
      ''condition'',
      ''forecast'',
      ''probability'',
      ''lead time'',
      ''early action'',
      ''eap'',
      ''s-eap'',
      ''seap'',
      ''activated'',
      ''mechanism'',
      ''stop'',
      ''deactivate'',
      ''return period'',
      ''model'',
      ''alert'',
      ''warning'',
      ''preliminary''] @
     [''d'' @ [CHR 0xE9] @ ''clencheur'',
      ''d'' @ [CHR 0xE9] @ ''clenchement'',
      ''seuil'',
      ''condition'',
      ''pr'' @ [CHR 0xE9] @ ''vision'',
      ''probabilit'' @ [CHR 0xE9],
      ''d'' @ [CHR 0xE9] @ ''lai'',
      ''action anticip'' @ [CHR 0xE9] @ ''e'',
      ''activ'' @ [CHR 0xE9],
      ''m'' @ [CHR 0xE9] @ ''canisme'',
      ''arr'' @ [CHR 0xEA] @ ''t'',
      ''d'' @ [CHR 0xE9] @ ''sactiver'',
      ''p'' @ [CHR 0xE9] @ ''riode de retour'',
      ''mod'' @ [CHR 0xE8] @ ''le'',
      ''alerte'',
      ''avertissement''] @
     [''disparador'',
      ''activaci'' @ [CHR 0xF3] @ ''n'',
      ''umbral'',
      ''condici'' @ [CHR 0xF3] @ ''n'',
      ''pron'' @ [CHR 0xF3] @ ''stico'',
      ''probabilidad'',
      ''tiempo de anticipaci'' @ [CHR 0xF3] @ ''n'',
      ''acci'' @ [CHR 0xF3] @ ''n temprana'',
      ''activado'',
      ''mecanismo'',
      ''parar'',
      ''desactivar'',
      ''per'' @ [CHR 0xED] @ ''odo de retorno'',
      ''modelo'',
      ''alerta'']"

definition config_default :: config where
  "config_default =
     \<lparr>RELEVANCE_KEYWORDS = RELEVANCE_KEYWORDS_default,
      KEYWORD_SCORE = 1,
      TABLE_BONUS_SCORE = 2,
      TOP_PAGES_TO_SELECT = 3,
      INCLUDE_NEIGHBOR_PAGES = True\<rparr>"

section \<open>Relevance scorer (page_selector.py)\<close>

text \<open>
  \<open>calculate_relevance_score\<close> assigns \<open>page_data.relevance_score\<close> and returns the
  score: the model returns the updated page together with the score.
\<close>

definition calculate_relevance_score :: "config \<Rightarrow> PageData \<Rightarrow> PageData \<times> int" where
  "calculate_relevance_score cfg page_data =
     (let score = 0;
          full_text = lower (page_text page_data);
          full_text = fold (\<lambda>table full_text. full_text @ '' '' @ lower table)
                        (tables page_data) full_text;
          score = fold (\<lambda>keyword score.
                          let count = str_count full_text (lower keyword)
                          in score + int count * KEYWORD_SCORE cfg)
                    (RELEVANCE_KEYWORDS cfg) score;
          score = (if has_tables page_data then score + TABLE_BONUS_SCORE cfg else score)
      in (page_data\<lparr>relevance_score := score\<rparr>, score))"

fun score_all_pages :: "config \<Rightarrow> PageData list \<Rightarrow> PageData list" where
  "score_all_pages cfg [] = []"
| "score_all_pages cfg (page_data # pages_data) =
     fst (calculate_relevance_score cfg page_data) # score_all_pages cfg pages_data"

section \<open>Page selector (page_selector.py)\<close>

text \<open>
  \<open>list.sort(key=..., reverse=...)\<close> is a stable sort by key. With \<open>reverse=True\<close> the
  list is reversed, sorted and reversed again, so that elements with equal keys keep
  their original order in the descending result too.
\<close>

definition list_sort :: "('a \<Rightarrow> int) \<Rightarrow> bool \<Rightarrow> 'a list \<Rightarrow> 'a list" where
  "list_sort key reverse xs =
     (if reverse then rev (sort_key key (rev xs)) else sort_key key xs)"

definition slice_to :: "'a list \<Rightarrow> int \<Rightarrow> 'a list" where
  \<comment> \<open>\<open>xs[:k]\<close>; a negative \<open>k\<close> counts from the end.\<close>
  "slice_to xs k =
     (if 0 \<le> k then take (nat k) xs else take (length xs - nat (- k)) xs)"

definition scored_pages :: "PageData list \<Rightarrow> PageData list" where
  "scored_pages pages_data = filter (\<lambda>p. relevance_score p > 0) pages_data"

definition top_pages :: "config \<Rightarrow> PageData list \<Rightarrow> PageData list" where
  "top_pages cfg pages_data =
     slice_to (list_sort relevance_score True (scored_pages pages_data))
       (TOP_PAGES_TO_SELECT cfg)"

definition add_with_neighbors :: "config \<Rightarrow> int \<Rightarrow> PageData \<Rightarrow> int set \<Rightarrow> int set" where
  \<comment> \<open>The body of the loop over \<open>top_pages\<close>.\<close>
  "add_with_neighbors cfg total_pages page selected =
     (let selected = insert (page_num page) selected
      in if INCLUDE_NEIGHBOR_PAGES cfg
         then (let selected =
                     (if page_num page > 1
                      then insert (page_num page - 1) selected
                      else selected)
               in if page_num page < total_pages
                  then insert (page_num page + 1) selected
                  else selected)
         else selected)"

definition selected_page_nums :: "config \<Rightarrow> PageData list \<Rightarrow> int set" where
  "selected_page_nums cfg pages_data =
     (let total_pages = int (length pages_data)
      in fold (add_with_neighbors cfg total_pages) (top_pages cfg pages_data) {})"

definition select_relevant_pages :: "config \<Rightarrow> PageData list \<Rightarrow> PageData list" where
  "select_relevant_pages cfg pages_data =
     (if scored_pages pages_data = [] then []
      else (let selected_pages =
                  filter (\<lambda>p. page_num p \<in> selected_page_nums cfg pages_data) pages_data
            in list_sort page_num False selected_pages))"

section \<open>Payload builder (payload_builder.py)\<close>

definition is_space :: "char \<Rightarrow> bool" where
  \<comment> \<open>The characters below U+0100 that \<open>str.strip()\<close> removes.\<close>
  "is_space c =
     (let n = (of_char c :: nat)
      in (9 \<le> n \<and> n \<le> 13) \<or> (28 \<le> n \<and> n \<le> 32) \<or> n = 133 \<or> n = 160)"

definition strip :: "string \<Rightarrow> string" where
  "strip s = rev (dropWhile is_space (rev (dropWhile is_space s)))"

definition digit :: "nat \<Rightarrow> char" where
  "digit d = ''0123456789'' ! d"

function str_of_nat :: "nat \<Rightarrow> string" where
  "str_of_nat n = (if n < 10 then [digit n] else str_of_nat (n div 10) @ [digit (n mod 10)])"
  by pat_completeness auto
termination
  by (relation "measure id") auto

declare str_of_nat.simps [simp del]

definition str_of_int :: "int \<Rightarrow> string" where
  \<comment> \<open>The decimal text an f-string gives an \<open>int\<close>.\<close>
  "str_of_int i = (if i < 0 then ''-'' @ str_of_nat (nat (- i)) else str_of_nat (nat i))"

definition NL :: string where
  "NL = [CHR 0x0A]"

definition page_header :: "PageData \<Rightarrow> string" where
  "page_header page = NL @ ''--- PAGE '' @ str_of_int (page_num page) @ '' ---'' @ NL"

definition TABLES_marker :: string where
  "TABLES_marker = NL @ ''[TABLES]'' @ NL"

definition TEXT_marker :: string where
  "TEXT_marker = NL @ ''[TEXT]'' @ NL"

definition append_page :: "PageData \<Rightarrow> string list \<Rightarrow> string list" where
  \<comment> \<open>The body of the loop over \<open>selected_pages\<close>.\<close>
  "append_page page payload_parts =
     (let payload_parts = payload_parts @ [page_header page];
          payload_parts =
            (if tables page \<noteq> []
             then fold (\<lambda>table payload_parts. (payload_parts @ [table]) @ [NL])
                    (tables page) (payload_parts @ [TABLES_marker])
             else payload_parts)
      in if strip (page_text page) \<noteq> []
         then ((payload_parts @ [TEXT_marker]) @ [strip (page_text page)]) @ [NL]
         else payload_parts)"

definition construct_payload :: "PageData list \<Rightarrow> string" where
  "construct_payload selected_pages =
     (if selected_pages = [] then []
      else concat (fold append_page selected_pages []))"

section \<open>Example documents\<close>

definition mk_page :: "int \<Rightarrow> string \<Rightarrow> string list \<Rightarrow> PageData" where
  \<comment> \<open>\<open>PageData(page_num, text, tables, has_tables=len(tables) > 0)\<close>, as \<open>extract_page_content\<close> builds it.\<close>
  "mk_page n t ts =
     \<lparr>page_num = n, page_text = t, tables = ts, relevance_score = 0,
      has_tables = (length ts > 0)\<rparr>"

definition five_pages :: "PageData list" where
  \<comment> \<open>Page 3 holds "threshold" twice and a table, page 1 holds "forecast" once.\<close>
  "five_pages =
     [mk_page 1 ''Forecast'' [],
      mk_page 2 ''Intro'' [],
      mk_page 3 ''Threshold 1, threshold 2'' [''| A |''],
      mk_page 4 ''Budget'' [],
      mk_page 5 ''Annex'' []]"

definition scored_page :: "int \<Rightarrow> int \<Rightarrow> PageData" where
  \<comment> \<open>An already scored page without content.\<close>
  "scored_page n s =
     \<lparr>page_num = n, page_text = [], tables = [], relevance_score = s, has_tables = False\<rparr>"

definition tied_pages :: "PageData list" where
  \<comment> \<open>Pages 1 to 4 tie at score 2 below page 5.\<close>
  "tied_pages =
     [scored_page 1 2, scored_page 2 2, scored_page 3 2, scored_page 4 2, scored_page 5 7]"

definition flagless_page :: PageData where
  \<comment> \<open>A page whose \<open>has_tables\<close> is left at its default although it has a table.\<close>
  "flagless_page = \<lparr>page_num = 1, page_text = ''Budget'', tables = [''| Trigger |''],
      relevance_score = 0, has_tables = False\<rparr>"

definition round_trip_pages :: "PageData list" where
  "round_trip_pages =
     [mk_page 2 ''Flood threshold 40%'' [],
      mk_page 3 '''' [''| A | B |'' @ NL @ ''| --- | --- |'' @ NL @ ''| 1 | 2 |'']]"

section \<open>The scorer as the specification words it\<close>

text \<open>
  The search corpus: the lowercased text, then for each table, in table order, a space
  and the lowercased table.
\<close>

definition corpus :: "PageData \<Rightarrow> string" where
  "corpus page = lower (page_text page) @ concat (map (\<lambda>t. '' '' @ lower t) (tables page))"

text \<open>
  An occurrence of a keyword in a string, case-insensitively, is a position where the
  string continues with the keyword up to the case of the letters. A set of positions is
  non-overlapping when any two of them lie at least the keyword's length apart. The
  number of non-overlapping occurrences is the size of the largest such set of
  occurrences.
\<close>

definition occurs_at :: "string \<Rightarrow> string \<Rightarrow> nat \<Rightarrow> bool" where
  "occurs_at s keyword i =
     (i + length keyword \<le> length s
      \<and> lower (take (length keyword) (drop i s)) = lower keyword)"

definition non_overlapping :: "nat \<Rightarrow> nat set \<Rightarrow> bool" where
  "non_overlapping n P = (\<forall>i\<in>P. \<forall>j\<in>P. i < j \<longrightarrow> i + n \<le> j)"

definition occurrence_sets :: "string \<Rightarrow> string \<Rightarrow> nat set set" where
  "occurrence_sets s keyword =
     {P. (\<forall>i\<in>P. occurs_at s keyword i) \<and> non_overlapping (length keyword) P}"

text \<open>The same for the exact occurrences of a string, without regard to case.\<close>

definition exact_sets :: "string \<Rightarrow> string \<Rightarrow> nat set set" where
  "exact_sets s sub =
     {P. (\<forall>i\<in>P. i + length sub \<le> length s \<and> take (length sub) (drop i s) = sub)
         \<and> non_overlapping (length sub) P}"

definition occurrences :: "string \<Rightarrow> string \<Rightarrow> nat" where
  "occurrences s keyword = Max (card ` occurrence_sets s keyword)"

definition spec_score :: "config \<Rightarrow> PageData \<Rightarrow> int" where
  "spec_score cfg page =
     (\<Sum>keyword\<leftarrow>RELEVANCE_KEYWORDS cfg.
        int (occurrences (corpus page) keyword) * KEYWORD_SCORE cfg)
     + (if has_tables page then TABLE_BONUS_SCORE cfg else 0)"

text \<open>The keyword part of the score of a corpus, with the scan of \<open>str.count\<close>.\<close>

definition keyword_score :: "config \<Rightarrow> string \<Rightarrow> int" where
  "keyword_score cfg s =
     (\<Sum>keyword\<leftarrow>RELEVANCE_KEYWORDS cfg. int (str_count s (lower keyword)) * KEYWORD_SCORE cfg)"

section \<open>The payload as the specification words it\<close>

definition tables_section :: "PageData \<Rightarrow> string" where
  \<comment> \<open>The marker, then each table in order, each followed by a newline.\<close>
  "tables_section page =
     (if tables page \<noteq> []
      then TABLES_marker @ concat (map (\<lambda>table. table @ NL) (tables page))
      else [])"

definition text_section_as_specified :: "PageData \<Rightarrow> string" where
  \<comment> \<open>The marker followed by the trimmed text.\<close>
  "text_section_as_specified page =
     (if strip (page_text page) \<noteq> [] then TEXT_marker @ strip (page_text page) else [])"

definition payload_as_specified :: "PageData list \<Rightarrow> string" where
  "payload_as_specified pages =
     concat (map (\<lambda>page. page_header page @ tables_section page
                            @ text_section_as_specified page) pages)"

definition text_section :: "PageData \<Rightarrow> string" where
  \<comment> \<open>The marker followed by the trimmed text and a newline.\<close>
  "text_section page =
     (if strip (page_text page) \<noteq> [] then TEXT_marker @ strip (page_text page) @ NL else [])"

definition payload_of :: "PageData list \<Rightarrow> string" where
  "payload_of pages =
     concat (map (\<lambda>page. page_header page @ tables_section page @ text_section page) pages)"

section \<open>Occurrences across the join of text and tables\<close>




section \<open>The selector on a store\<close>

text \<open>
  The pages are objects and the lists hold references to them, so that what the selector
  writes can be told from what it leaves alone. \<open>objects\<close> gives the \<open>PageData\<close> object
  behind a reference, \<open>contents\<close> the content of a list object, and the list objects in use
  are those below \<open>allocated\<close>. A list comprehension and a slice make a new list object;
  \<open>list.sort\<close> writes the sorted content back into the list object it is called on.
\<close>

type_synonym ref = nat

record store =
  objects :: "ref \<Rightarrow> PageData"
  contents :: "ref \<Rightarrow> ref list"
  allocated :: nat

definition new_list :: "ref list \<Rightarrow> store \<Rightarrow> ref \<times> store" where
  "new_list xs st =
     (allocated st,
      st\<lparr>contents := (contents st)(allocated st := xs), allocated := Suc (allocated st)\<rparr>)"

definition sort_in_place :: "ref \<Rightarrow> (PageData \<Rightarrow> int) \<Rightarrow> bool \<Rightarrow> store \<Rightarrow> store" where
  "sort_in_place l key reverse st =
     st\<lparr>contents := (contents st)(l := list_sort (\<lambda>p. key (objects st p)) reverse (contents st l))\<rparr>"

definition select_relevant_pages_st :: "config \<Rightarrow> ref \<Rightarrow> store \<Rightarrow> ref \<times> store" where
  "select_relevant_pages_st cfg pages_data st =
     (let (scored_pages, st) =
            new_list (filter (\<lambda>p. relevance_score (objects st p) > 0) (contents st pages_data)) st
      in if contents st scored_pages = [] then new_list [] st
         else
           (let st = sort_in_place scored_pages relevance_score True st;
                (top_pages, st) =
                  new_list (slice_to (contents st scored_pages) (TOP_PAGES_TO_SELECT cfg)) st;
                total_pages = int (length (contents st pages_data));
                selected_page_nums =
                  fold (\<lambda>page. add_with_neighbors cfg total_pages (objects st page))
                    (contents st top_pages) {};
                (selected_pages, st) =
                  new_list (filter (\<lambda>p. page_num (objects st p) \<in> selected_page_nums)
                              (contents st pages_data)) st;
                st = sort_in_place selected_pages page_num False st
            in (selected_pages, st)))"

definition five_pages_store :: store where
  \<comment> \<open>The scored five pages as objects 0 to 4, and list 0 holding them in page order.\<close>
  "five_pages_store =
     \<lparr>objects = (\<lambda>r. score_all_pages config_default five_pages ! r),
      contents = (\<lambda>l. if l = 0 then [0, 1, 2, 3, 4] else []),
      allocated = 1\<rparr>"

section \<open>Properties of the page selector\<close>

lemma set_slice_to: "set (slice_to xs k) \<subseteq> set xs"
  by (auto simp: slice_to_def dest: in_set_takeD)

lemma set_list_sort [simp]: "set (list_sort key r xs) = set xs"
  by (simp add: list_sort_def)

lemma top_pages_subset: "set (top_pages cfg pages_data) \<subseteq> set pages_data"
  using set_slice_to [of "list_sort relevance_score True (scored_pages pages_data)" "TOP_PAGES_TO_SELECT cfg"]
  by (auto simp: top_pages_def scored_pages_def)

lemma add_with_neighbors_bounds:
  assumes "1 \<le> page_num page" "page_num page \<le> n" "selected \<subseteq> {1..n}"
  shows "add_with_neighbors cfg n page selected \<subseteq> {1..n}"
  using assms by (auto simp: add_with_neighbors_def Let_def)

lemma fold_add_with_neighbors_bounds:
  assumes "\<forall>p\<in>set ps. 1 \<le> page_num p \<and> page_num p \<le> n" "selected \<subseteq> {1..n}"
  shows "fold (add_with_neighbors cfg n) ps selected \<subseteq> {1..n}"
  using assms
proof (induction ps arbitrary: selected)
  case Nil
  then show ?case by simp
next
  case (Cons p ps)
  have "add_with_neighbors cfg n p selected \<subseteq> {1..n}"
    using Cons.prems by (intro add_with_neighbors_bounds) auto
  with Cons show ?case by simp
qed

lemma selected_page_nums_bounds:
  assumes "set (map page_num pages_data) = {1..int (length pages_data)}"
  shows "selected_page_nums cfg pages_data \<subseteq> {1..int (length pages_data)}"
proof -
  have "\<forall>p\<in>set (top_pages cfg pages_data). 1 \<le> page_num p \<and> page_num p \<le> int (length pages_data)"
  proof
    fix p assume "p \<in> set (top_pages cfg pages_data)"
    then have "p \<in> set pages_data" using top_pages_subset by blast
    then have "page_num p \<in> set (map page_num pages_data)" by simp
    with assms show "1 \<le> page_num p \<and> page_num p \<le> int (length pages_data)" by simp
  qed
  then show ?thesis
    unfolding selected_page_nums_def Let_def
    by (intro fold_add_with_neighbors_bounds) auto
qed

lemma list_sort_asc_strict:
  assumes "distinct (map key xs)"
  shows "sorted_wrt (<) (map key (list_sort key False xs))"
proof -
  have "distinct (map key (sort_key key xs))"
    using assms by (simp add: distinct_map)
  then show ?thesis
    by (simp add: list_sort_def strict_sorted_iff)
qed

lemmas selector_defs =
  select_relevant_pages_def scored_pages_def selected_page_nums_def top_pages_def
  list_sort_def slice_to_def add_with_neighbors_def

lemma is_upper_Char:
  "is_upper (Char b0 b1 b2 b3 b4 b5 b6 b7) =
     (b6 \<and> \<not> b5 \<and>
      (if b7 then \<not> (b4 \<and> b2 \<and> b1 \<and> b0)
       else (b0 \<or> b1 \<or> b2 \<or> b3 \<or> b4) \<and> \<not> (b4 \<and> b3 \<and> (b2 \<or> (b1 \<and> b0)))))"
  by (cases b0; cases b1; cases b2; cases b3; cases b4; cases b5; cases b6; cases b7;
      simp add: is_upper_def)

lemmas scorer_defs =
  calculate_relevance_score_def str_count_def lower_def lower_char_def is_upper_Char

lemmas config_default_defs = config_default_def RELEVANCE_KEYWORDS_default_def

lemma five_pages_scored:
  "score_all_pages config_default five_pages =
     [mk_page 1 ''Forecast'' [] \<lparr>relevance_score := 1\<rparr>,
      mk_page 2 ''Intro'' [],
      mk_page 3 ''Threshold 1, threshold 2'' [''| A |'']
        \<lparr>relevance_score := 4\<rparr>,
      mk_page 4 ''Budget'' [],
      mk_page 5 ''Annex'' []]"
  by (simp add: five_pages_def mk_page_def scorer_defs config_default_defs)

lemma filter_list_sort:
  "filter (\<lambda>x. key x = k) (list_sort key r xs) = filter (\<lambda>x. key x = k) xs"
  by (simp add: list_sort_def rev_filter [symmetric] sort_key_stable del: rev_filter)

lemma sorted_list_sort_desc: "sorted (rev (map key (list_sort key True xs)))"
  by (simp add: list_sort_def rev_map [symmetric])

lemma slice_to_prefix: "\<exists>ys. xs = slice_to xs k @ ys"
  by (metis append_take_drop_id slice_to_def)

section \<open>Properties of the string operations\<close>

text \<open>A letter that \<open>lower\<close> changes moves up by 32, as from A to a.\<close>

lemma of_char_lower_char:
  "of_char (lower_char c) = (if is_upper c then of_char c + 32 else (of_char c :: nat))"
proof (cases c)
  case (Char b0 b1 b2 b3 b4 b5 b6 b7)
  show ?thesis unfolding Char
    by (cases b0; cases b1; cases b2; cases b3; cases b4; cases b5; cases b6; cases b7;
        simp add: lower_char_def is_upper_Char)
qed

lemma lower_char_idem [simp]: "lower_char (lower_char c) = lower_char c"
  by (cases c) (auto simp: lower_char_def is_upper_Char)

lemma lower_idem [simp]: "lower (lower s) = lower s"
  by (simp add: lower_def)

lemma lower_append [simp]: "lower (s @ t) = lower s @ lower t"
  by (simp add: lower_def)

lemma length_lower [simp]: "length (lower s) = length s"
  by (simp add: lower_def)

lemma lower_take: "lower (take n s) = take n (lower s)"
  by (simp add: lower_def take_map)

lemma lower_drop: "lower (drop n s) = drop n (lower s)"
  by (simp add: lower_def drop_map)

lemma lower_Nil_iff [simp]: "lower s = [] \<longleftrightarrow> s = []"
  by (simp add: lower_def)

lemma lower_Cons: "lower (c # s) = lower_char c # lower s"
  by (simp add: lower_def)

lemma lower_char_space: "lower_char CHR '' '' = CHR '' ''"
  by (simp add: lower_char_def is_upper_Char)

lemma lower_corpus: "lower (corpus page) = corpus page"
proof -
  have "lower (concat (map (\<lambda>t. '' '' @ lower t) ts)) = concat (map (\<lambda>t. '' '' @ lower t) ts)" for ts
    by (induction ts) (simp_all add: lower_Cons lower_char_space)
  then show ?thesis by (simp add: corpus_def)
qed

lemma startswith_iff: "startswith s sub \<longleftrightarrow> length sub \<le> length s \<and> take (length sub) s = sub"
  by (induction s sub rule: startswith.induct) auto

lemma exact_sets_finite: "P \<in> exact_sets s sub \<Longrightarrow> finite P"
proof -
  assume "P \<in> exact_sets s sub"
  then have "P \<subseteq> {..length s}" by (auto simp: exact_sets_def)
  then show "finite P" using finite_subset by blast
qed

lemma exact_sets_shift_up:
  assumes "P \<in> exact_sets (drop k s) sub" "sub \<noteq> []"
  shows "(\<lambda>i. i + k) ` P \<in> exact_sets s sub"
proof -
  have "0 < length sub" using assms(2) by simp
  have "i + k + length sub \<le> length s \<and> take (length sub) (drop (i + k) s) = sub"
    if "i \<in> P" for i
  proof -
    from that assms(1) have "i + length sub \<le> length s - k"
      and "take (length sub) (drop (i + k) s) = sub"
      by (auto simp: exact_sets_def)
    with \<open>0 < length sub\<close> show ?thesis by linarith
  qed
  moreover have "non_overlapping (length sub) ((\<lambda>i. i + k) ` P)"
    using assms(1) by (auto simp: exact_sets_def non_overlapping_def)
  ultimately show ?thesis by (auto simp: exact_sets_def)
qed

lemma exact_sets_shift_down:
  assumes "P \<in> exact_sets s sub" "\<forall>i\<in>P. k \<le> i"
  shows "(\<lambda>i. i - k) ` P \<in> exact_sets (drop k s) sub"
  using assms by (fastforce simp: exact_sets_def non_overlapping_def)

lemma exact_sets_subset: "P \<in> exact_sets s sub \<Longrightarrow> Q \<subseteq> P \<Longrightarrow> Q \<in> exact_sets s sub"
  by (auto simp: exact_sets_def non_overlapping_def)

lemma count_from_attained:
  "sub \<noteq> [] \<Longrightarrow> \<exists>P\<in>exact_sets s sub. card P = count_from sub s"
proof (induction sub s rule: count_from.induct)
  case (1 sub)
  have "{} \<in> exact_sets [] sub" by (simp add: exact_sets_def non_overlapping_def)
  then show ?case by force
next
  case (2 sub c cs)
  let ?n = "length sub"
  show ?case
  proof (cases "startswith (c # cs) sub")
    case True
    with 2 obtain P where P: "P \<in> exact_sets (drop (?n - 1) cs) sub" "card P = count_from sub (drop (?n - 1) cs)"
      by auto
    have dr: "drop (?n - 1) cs = drop ?n (c # cs)"
      using \<open>sub \<noteq> []\<close> by (cases sub) auto
    let ?Q = "insert 0 ((\<lambda>i. i + ?n) ` P)"
    have up: "(\<lambda>i. i + ?n) ` P \<in> exact_sets (c # cs) sub"
      using P(1) 2(3) unfolding dr by (rule exact_sets_shift_up)
    have "?Q \<in> exact_sets (c # cs) sub"
      using up True by (auto simp: exact_sets_def non_overlapping_def startswith_iff)
    moreover have "card ?Q = Suc (card P)"
    proof -
      have "finite P" using P(1) by (rule exact_sets_finite)
      moreover have "0 \<notin> (\<lambda>i. i + ?n) ` P" using \<open>sub \<noteq> []\<close> by auto
      moreover have "card ((\<lambda>i. i + ?n) ` P) = card P" by (simp add: card_image)
      ultimately show ?thesis by simp
    qed
    ultimately show ?thesis using P(2) True by (intro bexI [of _ ?Q]) auto
  next
    case False
    with 2 obtain P where P: "P \<in> exact_sets cs sub" "card P = count_from sub cs"
      by auto
    have "(\<lambda>i. i + 1) ` P \<in> exact_sets (c # cs) sub"
      using P(1) 2(3) by (intro exact_sets_shift_up) auto
    moreover have "card ((\<lambda>i. i + 1) ` P) = card P" by (simp add: card_image)
    ultimately show ?thesis using P(2) False by (intro bexI [of _ "(\<lambda>i. i + 1) ` P"]) auto
  qed
qed

lemma count_from_upper:
  "sub \<noteq> [] \<Longrightarrow> P \<in> exact_sets s sub \<Longrightarrow> card P \<le> count_from sub s"
proof (induction sub s arbitrary: P rule: count_from.induct)
  case (1 sub)
  then have "P = {}" by (auto simp: exact_sets_def)
  then show ?case by simp
next
  case (2 sub c cs)
  let ?n = "length sub"
  have fin: "finite P" using 2(4) by (rule exact_sets_finite)
  show ?case
  proof (cases "startswith (c # cs) sub")
    case True
    have dr: "drop (?n - 1) cs = drop ?n (c # cs)"
      using \<open>sub \<noteq> []\<close> by (cases sub) auto
    let ?lo = "{i\<in>P. i < ?n}" and ?hi = "{i\<in>P. ?n \<le> i}"
    have "P = ?lo \<union> ?hi" by auto
    then have "card P \<le> card ?lo + card ?hi"
      by (metis card_Un_le)
    moreover have "card ?lo \<le> 1"
    proof -
      have "\<And>i j. i \<in> ?lo \<Longrightarrow> j \<in> ?lo \<Longrightarrow> i = j"
      proof -
        fix i j assume "i \<in> ?lo" "j \<in> ?lo"
        then have ij: "i \<in> P" "j \<in> P" "i < ?n" "j < ?n" by auto
        from 2(4) have "non_overlapping ?n P" by (simp add: exact_sets_def)
        with ij(1,2) have "i < j \<Longrightarrow> i + ?n \<le> j" and "j < i \<Longrightarrow> j + ?n \<le> i"
          unfolding non_overlapping_def by blast+
        with ij(3,4) show "i = j" by linarith
      qed
      then show ?thesis by (simp add: card_le_Suc0_iff_eq fin)
    qed
    moreover have "card ?hi \<le> count_from sub (drop (?n - 1) cs)"
    proof -
      have "?hi \<in> exact_sets (c # cs) sub" using 2(4) by (rule exact_sets_subset) auto
      then have "(\<lambda>i. i - ?n) ` ?hi \<in> exact_sets (drop ?n (c # cs)) sub"
        by (rule exact_sets_shift_down) auto
      then have "card ((\<lambda>i. i - ?n) ` ?hi) \<le> count_from sub (drop (?n - 1) cs)"
        using 2(1) [OF True] 2(3) dr by simp
      moreover have "inj_on (\<lambda>i. i - ?n) ?hi" by (auto simp: inj_on_def)
      ultimately show ?thesis by (simp add: card_image)
    qed
    ultimately show ?thesis using True by simp
  next
    case False
    have "\<forall>i\<in>P. 1 \<le> i"
    proof
      fix i assume "i \<in> P"
      with 2(4) False show "1 \<le> i"
        by (cases i) (auto simp: exact_sets_def startswith_iff)
    qed
    with 2(4) have "(\<lambda>i. i - 1) ` P \<in> exact_sets (drop 1 (c # cs)) sub"
      by (rule exact_sets_shift_down)
    then have "card ((\<lambda>i. i - 1) ` P) \<le> count_from sub cs"
      using 2(2) [OF False] 2(3) by simp
    moreover have "inj_on (\<lambda>i. i - 1) P"
    proof (rule inj_onI)
      fix x y assume "x \<in> P" "y \<in> P" "x - 1 = y - 1"
      with \<open>\<forall>i\<in>P. 1 \<le> i\<close> have "1 \<le> x" "1 \<le> y" "x - 1 = y - 1" by auto
      then show "x = y" by linarith
    qed
    ultimately show ?thesis using False by (simp add: card_image)
  qed
qed

lemma count_from_Max:
  assumes "sub \<noteq> []"
  shows "count_from sub s = Max (card ` exact_sets s sub)"
proof -
  have "exact_sets s sub \<subseteq> Pow {..length s}" by (auto simp: exact_sets_def)
  then have "finite (exact_sets s sub)" by (rule finite_subset) simp
  then have fin: "finite (card ` exact_sets s sub)" by simp
  from count_from_attained [OF assms, of s] have "count_from sub s \<in> card ` exact_sets s sub"
    by (metis imageI)
  moreover have "\<And>n. n \<in> card ` exact_sets s sub \<Longrightarrow> n \<le> count_from sub s"
    using count_from_upper [OF assms] by auto
  ultimately show ?thesis using fin by (metis Max_eqI)
qed

section \<open>Properties of the relevance scorer\<close>

lemma occurrence_sets_exact:
  assumes "lower s = s"
  shows "occurrence_sets s keyword = exact_sets s (lower keyword)"
proof -
  have "lower (take n (drop i s)) = take n (drop i s)" for n i
    using assms by (simp add: lower_take lower_drop)
  then show ?thesis
    by (simp add: occurrence_sets_def exact_sets_def occurs_at_def)
qed

lemma exact_sets_Nil: "exact_sets s [] = Pow {..length s}"
  by (auto simp: exact_sets_def non_overlapping_def)

lemma Max_card_Pow:
  assumes "finite A"
  shows "Max (card ` Pow A) = card A"
proof (rule Max_eqI)
  show "finite (card ` Pow A)" using assms by simp
  show "card A \<in> card ` Pow A" by blast
  show "\<And>n. n \<in> card ` Pow A \<Longrightarrow> n \<le> card A"
    using assms by (auto intro: card_mono)
qed

lemma str_count_Max: "str_count s sub = Max (card ` exact_sets s sub)"
proof (cases "sub = []")
  case True
  then show ?thesis by (simp add: str_count_def exact_sets_Nil Max_card_Pow)
next
  case False
  then show ?thesis by (simp add: str_count_def count_from_Max)
qed

lemma str_count_occurrences:
  assumes "lower s = s"
  shows "str_count s (lower keyword) = occurrences s keyword"
  by (simp add: str_count_Max occurrences_def occurrence_sets_exact [OF assms])

lemma fold_full_text:
  "fold (\<lambda>table full_text. full_text @ '' '' @ lower table) ts a
     = a @ concat (map (\<lambda>t. '' '' @ lower t) ts)"
  by (induction ts arbitrary: a) simp_all

lemma fold_score:
  "fold (\<lambda>keyword score. score + int (f keyword) * w) kws a
     = a + (\<Sum>keyword\<leftarrow>kws. int (f keyword) * w)"
  by (induction kws arbitrary: a) simp_all

lemma calculate_relevance_score_sum:
  "calculate_relevance_score cfg page =
     (let score = keyword_score cfg (corpus page)
                  + (if has_tables page then TABLE_BONUS_SCORE cfg else 0)
      in (page\<lparr>relevance_score := score\<rparr>, score))"
  unfolding calculate_relevance_score_def Let_def fold_full_text fold_score corpus_def
    keyword_score_def
  by simp

lemma keyword_score_spec:
  "keyword_score cfg (corpus page)
     = (\<Sum>keyword\<leftarrow>RELEVANCE_KEYWORDS cfg.
          int (occurrences (corpus page) keyword) * KEYWORD_SCORE cfg)"
  by (simp add: keyword_score_def str_count_occurrences [OF lower_corpus])

lemma keyword_score_nonneg: "0 \<le> KEYWORD_SCORE cfg \<Longrightarrow> 0 \<le> keyword_score cfg s"
  unfolding keyword_score_def by (rule sum_list_nonneg) auto

lemma sum_list_count_list:
  fixes f :: "'a \<Rightarrow> int"
  shows "(\<Sum>x\<leftarrow>xs. f x) = int (count_list xs a) * f a + (\<Sum>x\<leftarrow>removeAll a xs. f x)"
  by (induction xs) (simp_all add: algebra_simps)

lemma lower_condition: "lower ''condition'' = ''condition''"
  by (simp add: lower_def lower_char_def is_upper_Char)

lemma exact_sets_append: "P \<in> exact_sets s sub \<Longrightarrow> P \<in> exact_sets (s @ x) sub"
  by (auto simp: exact_sets_def)

lemma str_count_bounds:
  "P \<in> exact_sets s sub \<Longrightarrow> card P \<le> str_count s sub"
proof -
  assume P: "P \<in> exact_sets s sub"
  have "exact_sets s sub \<subseteq> Pow {..length s}" by (auto simp: exact_sets_def)
  then have "finite (exact_sets s sub)" by (rule finite_subset) simp
  then have "finite (card ` exact_sets s sub)" by simp
  then show ?thesis using P by (simp add: str_count_Max)
qed

lemma str_count_attained: "\<exists>P\<in>exact_sets s sub. card P = str_count s sub"
proof (cases "sub = []")
  case True
  have "{..length s} \<in> exact_sets s sub" using True by (simp add: exact_sets_Nil)
  then show ?thesis using True by (intro bexI [of _ "{..length s}"]) (simp_all add: str_count_def)
next
  case False
  then show ?thesis using count_from_attained [of sub s] by (simp add: str_count_def)
qed

lemma str_count_append_mono: "str_count s sub \<le> str_count (s @ x) sub"
proof -
  obtain P where "P \<in> exact_sets s sub" "card P = str_count s sub"
    using str_count_attained by blast
  then show ?thesis using str_count_bounds [OF exact_sets_append] by metis
qed

lemma str_count_append_self:
  assumes "sub \<noteq> []"
  shows "str_count s sub + 1 \<le> str_count (s @ sub) sub"
proof -
  obtain P where P: "P \<in> exact_sets s sub" "card P = str_count s sub"
    using str_count_attained by blast
  have fin: "finite P" using P(1) by (rule exact_sets_finite)
  have notin: "length s \<notin> P" using P(1) assms by (auto simp: exact_sets_def)
  have "insert (length s) P \<in> exact_sets (s @ sub) sub"
    using P(1) assms by (auto simp: exact_sets_def non_overlapping_def)
  then have "card (insert (length s) P) \<le> str_count (s @ sub) sub"
    by (rule str_count_bounds)
  with fin notin P(2) show ?thesis by simp
qed

section \<open>Properties of the payload builder\<close>

lemma fold_tables:
  "concat (fold (\<lambda>table payload_parts. payload_parts @ [table, NL]) ts parts)
     = concat parts @ concat (map (\<lambda>table. table @ NL) ts)"
  by (induction ts arbitrary: parts) simp_all

lemma concat_append_page:
  "concat (append_page page parts)
     = concat parts @ page_header page @ tables_section page @ text_section page"
  by (simp add: append_page_def Let_def fold_tables tables_section_def text_section_def)

lemma concat_fold_append_page:
  "concat (fold append_page pages parts) = concat parts @ payload_of pages"
  by (induction pages arbitrary: parts) (simp_all add: concat_append_page payload_of_def)

lemmas payload_defs =
  construct_payload_def append_page_def page_header_def TABLES_marker_def TEXT_marker_def
  strip_def is_space_def str_of_int_def str_of_nat.simps digit_def NL_def

section \<open>Properties of the selector on a store\<close>

lemma map_insort_key: "map f (insort_key (\<lambda>x. k (f x)) a xs) = insort_key k (f a) (map f xs)"
  by (induction xs) simp_all

lemma map_sort_key: "map f (sort_key (\<lambda>x. k (f x)) xs) = sort_key k (map f xs)"
  by (induction xs) (simp_all add: map_insort_key)

lemma map_list_sort: "map f (list_sort (\<lambda>x. k (f x)) r xs) = list_sort k r (map f xs)"
proof -
  have "map f (sort_key (\<lambda>x. k (f x)) (rev xs)) = sort_key k (rev (map f xs))"
    by (simp add: map_sort_key rev_map)
  then show ?thesis
    by (simp add: list_sort_def map_sort_key rev_map [symmetric])
qed

lemma list_sort_map: "list_sort k r (map f xs) = map f (list_sort (\<lambda>x. k (f x)) r xs)"
  by (simp add: map_list_sort)

lemma slice_to_map: "slice_to (map f xs) k = map f (slice_to xs k)"
  by (simp add: slice_to_def take_map)

lemma filter_map_fun: "filter P (map f xs) = map f (filter (\<lambda>x. P (f x)) xs)"
  by (simp add: filter_map comp_def)

lemma fold_map_fun: "fold g (map f xs) a = fold (\<lambda>x. g (f x)) xs a"
  by (simp add: fold_map comp_def)

section \<open>Inserting a keyword between text and tables\<close>













text \<open>
  C1. The scorer returns, and stores in the page's \<open>relevance_score\<close>, the sum over the
  configured keywords of the number of non-overlapping case-insensitive occurrences of
  the keyword in the corpus, times the weight of an occurrence, plus the table bonus,
  once, when \<open>has_tables\<close> holds. With weights that are not negative, as those of
  config.py are, the score is not negative.
\<close>

theorem calculate_relevance_score_spec:
  "calculate_relevance_score cfg page
     = (page\<lparr>relevance_score := spec_score cfg page\<rparr>, spec_score cfg page)
   \<and> (0 \<le> KEYWORD_SCORE cfg \<and> 0 \<le> TABLE_BONUS_SCORE cfg
        \<longrightarrow> 0 \<le> snd (calculate_relevance_score cfg page))
   \<and> 0 \<le> snd (calculate_relevance_score config_default page)"
proof -
  have eq: "calculate_relevance_score cfg page
     = (page\<lparr>relevance_score := spec_score cfg page\<rparr>, spec_score cfg page)" for cfg
    by (simp add: calculate_relevance_score_sum keyword_score_spec spec_score_def Let_def)
  have nonneg: "0 \<le> snd (calculate_relevance_score cfg page)"
    if "0 \<le> KEYWORD_SCORE cfg" "0 \<le> TABLE_BONUS_SCORE cfg" for cfg
    using that keyword_score_nonneg [of cfg "corpus page"]
    by (simp add: calculate_relevance_score_sum Let_def)
  have "0 \<le> snd (calculate_relevance_score config_default page)"
    by (rule nonneg) (simp_all add: config_default_def)
  with eq nonneg show ?thesis by blast
qed

theorem calculate_relevance_score_spec_witness:
  "spec_score config_default (mk_page 3 ''Threshold 1, threshold 2'' [''| A |'']) = 4
   \<and> 0 \<le> KEYWORD_SCORE config_default \<and> 0 \<le> TABLE_BONUS_SCORE config_default
   \<and> 0 \<le> snd (calculate_relevance_score config_default
              (mk_page 3 ''Threshold 1, threshold 2'' [''| A |'']))"
proof -
  let ?page = "mk_page 3 ''Threshold 1, threshold 2'' [''| A |'']"
  have "snd (calculate_relevance_score config_default ?page) = 4"
    by (simp add: mk_page_def scorer_defs config_default_defs)
  with calculate_relevance_score_spec [of config_default ?page]
  show ?thesis by (simp add: config_default_def)
qed

text \<open>
  C2. On a document whose pages carry the numbers 1 to N, each once, the selector returns
  only pages of the input, in strictly ascending order of page number and so without
  repetition, and every selected page number, neighbours included, lies between 1 and N.
\<close>

theorem select_subset_sorted_clamped:
  assumes "distinct (map page_num pages_data)"
    and "set (map page_num pages_data) = {1..int (length pages_data)}"
  shows "set (select_relevant_pages cfg pages_data) \<subseteq> set pages_data
       \<and> sorted_wrt (<) (map page_num (select_relevant_pages cfg pages_data))
       \<and> distinct (select_relevant_pages cfg pages_data)
       \<and> (\<forall>p\<in>set (select_relevant_pages cfg pages_data).
            1 \<le> page_num p \<and> page_num p \<le> int (length pages_data))
       \<and> selected_page_nums cfg pages_data \<subseteq> {1..int (length pages_data)}"
proof -
  let ?sel = "select_relevant_pages cfg pages_data"
  have sub: "set ?sel \<subseteq> set pages_data"
    by (auto simp: select_relevant_pages_def Let_def)
  have "distinct (map page_num (filter P pages_data))" for P
    using assms(1) by (simp add: distinct_map_filter)
  then have srt: "sorted_wrt (<) (map page_num ?sel)"
    by (simp add: select_relevant_pages_def Let_def list_sort_asc_strict)
  then have "distinct (map page_num ?sel)"
    using strict_sorted_iff by blast
  then have dst: "distinct ?sel"
    by (simp add: distinct_map)
  have rng: "\<forall>p\<in>set ?sel. 1 \<le> page_num p \<and> page_num p \<le> int (length pages_data)"
  proof
    fix p assume "p \<in> set ?sel"
    with sub have "page_num p \<in> set (map page_num pages_data)" by auto
    with assms(2) show "1 \<le> page_num p \<and> page_num p \<le> int (length pages_data)" by simp
  qed
  from sub srt dst rng selected_page_nums_bounds [OF assms(2)] show ?thesis by blast
qed

theorem select_subset_sorted_clamped_witness:
  "distinct (map page_num (score_all_pages config_default five_pages))
   \<and> set (map page_num (score_all_pages config_default five_pages))
       = {1..int (length (score_all_pages config_default five_pages))}
   \<and> set (select_relevant_pages config_default (score_all_pages config_default five_pages))
       \<subseteq> set (score_all_pages config_default five_pages)
   \<and> sorted_wrt (<) (map page_num
        (select_relevant_pages config_default (score_all_pages config_default five_pages)))
   \<and> map page_num
        (select_relevant_pages config_default (score_all_pages config_default five_pages))
       = [1, 2, 3, 4]"
proof -
  let ?ps = "score_all_pages config_default five_pages"
  have h1: "distinct (map page_num ?ps)"
    by (simp add: five_pages_scored mk_page_def)
  have h2: "set (map page_num ?ps) = {1..int (length ?ps)}"
    by (auto simp: five_pages_scored mk_page_def)
  have r: "map page_num (select_relevant_pages config_default ?ps) = [1, 2, 3, 4]"
    unfolding five_pages_scored
    by (simp add: mk_page_def selector_defs config_default_def)
  from select_subset_sorted_clamped [OF h1 h2, of config_default] h1 h2 r
  show ?thesis by blast
qed

text \<open>
  C3, as the code has it. The payload is the concatenation, page by page in the order
  given, of the page header, then, when the page has tables, the tables marker and each
  table in extraction order followed by a newline, then, when the trimmed text is not
  empty, the text marker, the trimmed text and a newline. No pages give the empty
  string. The payload of the two pages of the round-trip example is the text shown.
\<close>

theorem construct_payload_layout:
  "construct_payload selected_pages = payload_of selected_pages
   \<and> construct_payload [] = []
   \<and> construct_payload round_trip_pages =
       ''\<newline>--- PAGE 2 ---\<newline>\<newline>[TEXT]\<newline>Flood threshold 40%\<newline>\<newline>--- PAGE 3 ---\<newline>\<newline>[TABLES]\<newline>| A | B |\<newline>| --- | --- |\<newline>| 1 | 2 |\<newline>''"
proof (intro conjI)
  show "construct_payload selected_pages = payload_of selected_pages"
    by (simp add: construct_payload_def concat_fold_append_page) (simp add: payload_of_def)
  show "construct_payload [] = []"
    by (simp add: construct_payload_def)
  show "construct_payload round_trip_pages =
       ''\<newline>--- PAGE 2 ---\<newline>\<newline>[TEXT]\<newline>Flood threshold 40%\<newline>\<newline>--- PAGE 3 ---\<newline>\<newline>[TABLES]\<newline>| A | B |\<newline>| --- | --- |\<newline>| 1 | 2 |\<newline>''"
    by (simp add: round_trip_pages_def mk_page_def payload_defs)
qed

theorem text_section_newline_counterexample:
  "construct_payload [mk_page 2 ''Flood threshold 40%'' []]
     \<noteq> payload_as_specified [mk_page 2 ''Flood threshold 40%'' []]
   \<and> construct_payload [mk_page 2 ''Flood threshold 40%'' []]
     = payload_as_specified [mk_page 2 ''Flood threshold 40%'' []] @ NL"
  by (simp add: payload_as_specified_def tables_section_def text_section_as_specified_def
        mk_page_def payload_defs)

text \<open>
  C4. On any five-page document with the page numbers 1 to 5 in order and the scores
  1, 0, 4, 0, 0, with K = 1 and neighbour inclusion enabled, the selector returns the
  pages 2, 3 and 4 in that order: page 3 alone is the top page, and page 1 is left out
  although its score is positive.
\<close>

theorem end_to_end_scenario:
  assumes "map page_num pages_data = [1, 2, 3, 4, 5]"
    and "map relevance_score pages_data = [1, 0, 4, 0, 0]"
    and "TOP_PAGES_TO_SELECT cfg = 1" and "INCLUDE_NEIGHBOR_PAGES cfg"
  shows "select_relevant_pages cfg pages_data = [pages_data ! 1, pages_data ! 2, pages_data ! 3]
       \<and> map page_num (select_relevant_pages cfg pages_data) = [2, 3, 4]
       \<and> top_pages cfg pages_data = [pages_data ! 2]
       \<and> 0 < relevance_score (pages_data ! 0)
       \<and> pages_data ! 0 \<notin> set (select_relevant_pages cfg pages_data)"
proof -
  from assms(1) obtain p1 p2 p3 p4 p5 where ps: "pages_data = [p1, p2, p3, p4, p5]"
    by (auto simp: map_eq_Cons_conv)
  from assms show ?thesis unfolding ps
    by (auto simp add: selector_defs)
qed

theorem end_to_end_scenario_witness:
  "map page_num (score_all_pages config_default five_pages) = [1, 2, 3, 4, 5]
   \<and> map relevance_score (score_all_pages config_default five_pages) = [1, 0, 4, 0, 0]
   \<and> map page_num
        (select_relevant_pages (config_default\<lparr>TOP_PAGES_TO_SELECT := 1\<rparr>)
           (score_all_pages config_default five_pages)) = [2, 3, 4]"
proof -
  let ?ps = "score_all_pages config_default five_pages"
  let ?cfg = "config_default\<lparr>TOP_PAGES_TO_SELECT := 1\<rparr>"
  have h1: "map page_num ?ps = [1, 2, 3, 4, 5]"
    by (simp add: five_pages_scored mk_page_def)
  have h2: "map relevance_score ?ps = [1, 0, 4, 0, 0]"
    by (simp add: five_pages_scored mk_page_def)
  have h3: "TOP_PAGES_TO_SELECT ?cfg = 1" by simp
  have h4: "INCLUDE_NEIGHBOR_PAGES ?cfg" by (simp add: config_default_def)
  from end_to_end_scenario [OF h1 h2 h3 h4] h1 h2 show ?thesis by blast
qed

text \<open>
  C5. The ranking by descending score keeps, among the pages of one score, the order they
  have in the input. So on an input in ascending order of page number, when a page q is
  among the top pages, every page p of the same score and a lower number is among them
  too: a tie at the cut is decided for the lower page number.
\<close>

theorem ranking_stable_tie_break:
  assumes "sorted (map page_num pages_data)"
    and "p \<in> set pages_data"
    and "q \<in> set (top_pages cfg pages_data)"
    and "relevance_score p = relevance_score q"
    and "page_num p < page_num q"
  shows "filter (\<lambda>x. relevance_score x = s)
             (list_sort relevance_score True (scored_pages pages_data))
           = filter (\<lambda>x. relevance_score x = s) (scored_pages pages_data)
       \<and> sorted (rev (map relevance_score
            (list_sort relevance_score True (scored_pages pages_data))))
       \<and> p \<in> set (top_pages cfg pages_data)"
proof (intro conjI)
  show "filter (\<lambda>x. relevance_score x = s)
             (list_sort relevance_score True (scored_pages pages_data))
           = filter (\<lambda>x. relevance_score x = s) (scored_pages pages_data)"
    by (rule filter_list_sort)
  show "sorted (rev (map relevance_score
            (list_sort relevance_score True (scored_pages pages_data))))"
    by (rule sorted_list_sort_desc)
next
  let ?ranked = "list_sort relevance_score True (scored_pages pages_data)"
  let ?top = "top_pages cfg pages_data"
  let ?P = "\<lambda>x. relevance_score x = relevance_score q"
  obtain rest where split: "?ranked = ?top @ rest"
    using slice_to_prefix [of ?ranked "TOP_PAGES_TO_SELECT cfg"] by (auto simp: top_pages_def)
  have "q \<in> set ?ranked" using assms(3) split by simp
  then have "0 < relevance_score q" by (simp add: scored_pages_def)
  with assms(2,4) have p_ranked: "p \<in> set ?ranked" by (simp add: scored_pages_def)
  show "p \<in> set ?top"
  proof (rule ccontr)
    assume "p \<notin> set ?top"
    with p_ranked split have p_rest: "p \<in> set rest" by auto
    have "filter ?P (scored_pages pages_data) = filter ?P ?top @ filter ?P rest"
      using filter_list_sort [of relevance_score "relevance_score q" True "scored_pages pages_data"]
        split by simp
    moreover have "sorted (map page_num (filter ?P (scored_pages pages_data)))"
      using assms(1) by (simp add: scored_pages_def sorted_filter)
    ultimately have "sorted (map page_num (filter ?P ?top @ filter ?P rest))"
      by simp
    then have "\<forall>x\<in>set (filter ?P ?top). \<forall>y\<in>set (filter ?P rest). page_num x \<le> page_num y"
      by (auto simp: sorted_append)
    with assms(3,4) p_rest have "page_num q \<le> page_num p" by simp
    with assms(5) show False by simp
  qed
qed

theorem ranking_stable_tie_break_witness:
  "sorted (map page_num tied_pages)
   \<and> scored_page 1 2 \<in> set tied_pages
   \<and> scored_page 2 2 \<in> set (top_pages config_default tied_pages)
   \<and> relevance_score (scored_page 1 2) = relevance_score (scored_page 2 2)
   \<and> page_num (scored_page 1 2) < page_num (scored_page 2 2)
   \<and> scored_page 1 2 \<in> set (top_pages config_default tied_pages)
   \<and> top_pages config_default tied_pages = [scored_page 5 7, scored_page 1 2, scored_page 2 2]"
proof -
  have top: "top_pages config_default tied_pages
               = [scored_page 5 7, scored_page 1 2, scored_page 2 2]"
    by (simp add: tied_pages_def scored_page_def selector_defs config_default_def)
  have h1: "sorted (map page_num tied_pages)"
    by (simp add: tied_pages_def scored_page_def)
  have h2: "scored_page 1 2 \<in> set tied_pages"
    by (simp add: tied_pages_def)
  have h3: "scored_page 2 2 \<in> set (top_pages config_default tied_pages)"
    by (simp add: top)
  have h4: "relevance_score (scored_page 1 2) = relevance_score (scored_page 2 2)"
    by (simp add: scored_page_def)
  have h5: "page_num (scored_page 1 2) < page_num (scored_page 2 2)"
    by (simp add: scored_page_def)
  from ranking_stable_tie_break [OF h1 h2 h3 h4 h5] h1 h2 h3 h4 h5 top
  show ?thesis by blast
qed




text \<open>
  C7. When no page of the input has a positive score, the selector returns the empty
  list: a value, since the model has no failing branch here.
\<close>

theorem select_no_relevant_pages:
  assumes "\<forall>p\<in>set pages_data. \<not> relevance_score p > 0"
  shows "select_relevant_pages cfg pages_data = []"
  using assms by (simp add: select_relevant_pages_def scored_pages_def filter_empty_conv)

theorem select_no_relevant_pages_witness:
  "\<not> relevance_score (mk_page 1 ''Budget'' []) > 0
   \<and> \<not> relevance_score (mk_page 2 ''Annex'' [] \<lparr>relevance_score := - 1\<rparr>) > 0
   \<and> select_relevant_pages config_default
        [mk_page 1 ''Budget'' [], mk_page 2 ''Annex'' [] \<lparr>relevance_score := - 1\<rparr>] = []"
proof -
  have h: "\<forall>p\<in>set [mk_page 1 ''Budget'' [], mk_page 2 ''Annex'' [] \<lparr>relevance_score := - 1\<rparr>].
      \<not> relevance_score p > 0"
    by (simp add: mk_page_def)
  from select_no_relevant_pages [OF h, of config_default] h show ?thesis by simp
qed

text \<open>
  C8. The selector writes to no page object and to no list object that exists when it is
  called: after it returns, every field of every page is as before, and the input list
  holds the same references in the same order. The list it returns holds the pages that
  the selector on values selects.
\<close>

theorem select_leaves_input_unchanged:
  assumes "pages_data < allocated st"
  shows "objects (snd (select_relevant_pages_st cfg pages_data st)) = objects st
       \<and> contents (snd (select_relevant_pages_st cfg pages_data st)) pages_data
           = contents st pages_data
       \<and> (\<forall>l<allocated st. contents (snd (select_relevant_pages_st cfg pages_data st)) l = contents st l)
       \<and> map (objects st)
            (contents (snd (select_relevant_pages_st cfg pages_data st))
               (fst (select_relevant_pages_st cfg pages_data st)))
           = select_relevant_pages cfg (map (objects st) (contents st pages_data))"
  using assms
  by (simp add: select_relevant_pages_st_def new_list_def sort_in_place_def Let_def
        select_relevant_pages_def scored_pages_def top_pages_def selected_page_nums_def
        list_sort_map slice_to_map filter_map_fun fold_map_fun)

theorem select_leaves_input_unchanged_witness:
  "0 < allocated five_pages_store
   \<and> objects (snd (select_relevant_pages_st config_default 0 five_pages_store))
       = objects five_pages_store
   \<and> contents (snd (select_relevant_pages_st config_default 0 five_pages_store)) 0
       = [0, 1, 2, 3, 4]
   \<and> contents (snd (select_relevant_pages_st config_default 0 five_pages_store))
        (fst (select_relevant_pages_st config_default 0 five_pages_store))
       = [0, 1, 2, 3]"
proof -
  have h: "0 < allocated five_pages_store" by (simp add: five_pages_store_def)
  have c: "contents five_pages_store 0 = [0, 1, 2, 3, 4]" by (simp add: five_pages_store_def)
  have r: "contents (snd (select_relevant_pages_st config_default 0 five_pages_store))
        (fst (select_relevant_pages_st config_default 0 five_pages_store))
       = [0, 1, 2, 3]"
    unfolding five_pages_store_def five_pages_scored
    by (simp add: select_relevant_pages_st_def new_list_def sort_in_place_def
          list_sort_def slice_to_def add_with_neighbors_def mk_page_def config_default_def)
  from select_leaves_input_unchanged [OF h, of config_default] h c r show ?thesis by simp
qed

text \<open>
  C9. The table bonus follows the field \<open>has_tables\<close> and not the list of tables. On a
  page whose \<open>has_tables\<close> is false the score is the keyword score of the corpus, which
  includes the tables, with no bonus; the same page with \<open>has_tables\<close> set scores the
  bonus more, whatever its tables are.
\<close>

theorem table_bonus_gated_on_flag:
  assumes "\<not> has_tables page"
  shows "snd (calculate_relevance_score cfg page) = keyword_score cfg (corpus page)
       \<and> snd (calculate_relevance_score cfg (page\<lparr>has_tables := True\<rparr>))
           = keyword_score cfg (corpus page) + TABLE_BONUS_SCORE cfg"
  using assms by (simp add: calculate_relevance_score_sum Let_def corpus_def)

theorem table_bonus_gated_on_flag_witness:
  "\<not> has_tables flagless_page \<and> tables flagless_page \<noteq> []
   \<and> snd (calculate_relevance_score config_default (flagless_page\<lparr>tables := []\<rparr>)) = 0
   \<and> snd (calculate_relevance_score config_default flagless_page) = 1
   \<and> keyword_score config_default (corpus flagless_page) = 1"
proof -
  have h: "\<not> has_tables flagless_page" by (simp add: flagless_page_def)
  have a: "snd (calculate_relevance_score config_default (flagless_page\<lparr>tables := []\<rparr>)) = 0"
    by (simp add: flagless_page_def scorer_defs config_default_defs)
  have b: "snd (calculate_relevance_score config_default flagless_page) = 1"
    by (simp add: flagless_page_def scorer_defs config_default_defs)
  from table_bonus_gated_on_flag [OF h, of config_default] h a b show ?thesis
    by (simp add: flagless_page_def)
qed

text \<open>
  C10. The configured keyword list holds "condition" twice, so each occurrence of
  "condition" that the scan counts in a corpus adds the weight twice. A page whose text
  is "condition", without tables, scores 2.
\<close>

theorem condition_counted_twice:
  "count_list (RELEVANCE_KEYWORDS config_default) ''condition'' = 2
   \<and> snd (calculate_relevance_score config_default page)
       = 2 * (int (str_count (corpus page) ''condition'') * KEYWORD_SCORE config_default)
         + snd (calculate_relevance_score
                  (config_default\<lparr>RELEVANCE_KEYWORDS :=
                     removeAll ''condition'' (RELEVANCE_KEYWORDS config_default)\<rparr>) page)
   \<and> snd (calculate_relevance_score config_default
        \<lparr>page_num = 1, page_text = ''condition'', tables = [], relevance_score = 0,
         has_tables = False\<rparr>) = 2"
proof (intro conjI)
  let ?rest = "config_default\<lparr>RELEVANCE_KEYWORDS :=
                     removeAll ''condition'' (RELEVANCE_KEYWORDS config_default)\<rparr>"
  show twice: "count_list (RELEVANCE_KEYWORDS config_default) ''condition'' = 2"
    by (simp add: config_default_defs)
  have "keyword_score config_default (corpus page)
       = 2 * (int (str_count (corpus page) ''condition'') * KEYWORD_SCORE config_default)
         + keyword_score ?rest (corpus page)"
    unfolding keyword_score_def
    using sum_list_count_list
            [of "\<lambda>keyword. int (str_count (corpus page) (lower keyword)) * KEYWORD_SCORE config_default"
                "RELEVANCE_KEYWORDS config_default" "''condition''"] twice
    by (simp add: lower_condition)
  then show "snd (calculate_relevance_score config_default page)
       = 2 * (int (str_count (corpus page) ''condition'') * KEYWORD_SCORE config_default)
         + snd (calculate_relevance_score ?rest page)"
    by (simp add: calculate_relevance_score_sum Let_def)
  show "snd (calculate_relevance_score config_default
        \<lparr>page_num = 1, page_text = ''condition'', tables = [], relevance_score = 0,
         has_tables = False\<rparr>) = 2"
    by (simp add: scorer_defs config_default_defs)
qed

end
